theory Spec2Isabelle
  imports Main
begin

section \<open>Outbound flow control of the dilation layer (\<^verbatim>\<open>wormhole/_dilation/outbound.py\<close>)\<close>

text \<open>
  The class \<^verbatim>\<open>Outbound\<close> keeps the ledger of sent-but-unacknowledged records, the
  registry of subchannel producers, the rotation deque with its three classification
  sets, and the aggregate pause flag. Every method is embedded as a function from the
  object's state to an outcome and the state the method leaves behind; an exception is
  an outcome, and the state is the one at the moment of the raise (Python does not roll
  back the mutations made before it).
\<close>

subsection \<open>Data\<close>

type_synonym subchannel = nat
type_synonym producer = nat

datatype kind = Open | Data | Close

text \<open>
  Modelled from the spec: the record classes (Open, Data, Close) that
  \<^verbatim>\<open>build_record\<close> instantiates live in another module; the methods here read
  only the field \<^verbatim>\<open>seqnum\<close>.
\<close>

record drecord =
  seqnum :: int
  rkind :: kind
  payload :: string

text \<open>
  What the object tells its collaborators: the calls it makes on a producer, on the
  manager and on the connection, in the order it makes them.
\<close>

datatype event =
    PauseSignal producer
  | ResumeSignal producer
  | SendRecord drecord
  | RegisterProducer

datatype error =
    AttributeError | AssertionError | KeyError | ValueError | TypeError | IndexError

text \<open>
  \<open>OutOfFuel\<close>: the drain loop of \<^verbatim>\<open>resumeProducing\<close> is still running after the
  given number of iterations. \<open>Diverges\<close>: the inner \<^verbatim>\<open>while True\<close> of
  \<^verbatim>\<open>_get_next_unpaused_producer\<close> never exits.
\<close>

datatype outcome = Returns | Raises error | OutOfFuel | Diverges

record outbound =
  outbound_queue :: "drecord list"
  next_outbound_seqnum :: int
  queued_unsent :: "drecord list"
  subchannel_producers :: "subchannel \<rightharpoonup> producer"
  paused :: bool
  all_producers :: "producer list"
  pull_producers :: "producer set"
  paused_push_producers :: "producer set"
  unpaused_push_producers :: "producer set"
  trace :: "event list"

text \<open>
  The collaborators. A call on a producer, on the manager or on the connection may
  re-enter the object before it returns (a producer's write can make the connection call
  \<^verbatim>\<open>pauseProducing\<close>), so each is a transformer of the object's state, applied at
  the point of the call.
\<close>

record env =
  p_pauseProducing :: "producer \<Rightarrow> outbound \<Rightarrow> outbound"
  p_resumeProducing :: "producer \<Rightarrow> outbound \<Rightarrow> outbound"
  m_send_record :: "drecord \<Rightarrow> outbound \<Rightarrow> outbound"
  c_registerProducer :: "outbound \<Rightarrow> outbound"

definition quiet :: env where
  "quiet = \<lparr>p_pauseProducing = (\<lambda>p s. s), p_resumeProducing = (\<lambda>p s. s),
            m_send_record = (\<lambda>r s. s), c_registerProducer = (\<lambda>s. s)\<rparr>"

definition emit :: "event \<Rightarrow> outbound \<Rightarrow> outbound" where
  "emit e s = s\<lparr>trace := trace s @ [e]\<rparr>"

subsection \<open>Construction and invariants\<close>

definition attrs_post_init :: outbound where
  "attrs_post_init =
     \<lparr>outbound_queue = [], next_outbound_seqnum = 0, queued_unsent = [],
      subchannel_producers = Map.empty, paused = True, all_producers = [],
      pull_producers = {}, paused_push_producers = {}, unpaused_push_producers = {},
      trace = []\<rparr>"

definition check_invariants :: "outbound \<Rightarrow> bool" where
  "check_invariants s =
     (pull_producers s \<inter> unpaused_push_producers s = {} \<and>
      pull_producers s \<inter> paused_push_producers s = {} \<and>
      unpaused_push_producers s \<inter> paused_push_producers s = {} \<and>
      pull_producers s \<union> paused_push_producers s \<union> unpaused_push_producers s
        = set (all_producers s))"

subsection \<open>The ledger\<close>

definition build_record :: "kind \<Rightarrow> string \<Rightarrow> outbound \<Rightarrow> drecord \<times> outbound" where
  "build_record k args s =
     (\<lparr>seqnum = next_outbound_seqnum s, rkind = k, payload = args\<rparr>,
      s\<lparr>next_outbound_seqnum := next_outbound_seqnum s + 1\<rparr>)"

definition queue_record :: "drecord \<Rightarrow> outbound \<Rightarrow> outbound" where
  "queue_record r s = s\<lparr>outbound_queue := outbound_queue s @ [r]\<rparr>"

text \<open>The loop \<^verbatim>\<open>while q and q[0].seqnum <= resp_seqnum: q.popleft()\<close>.\<close>

fun popleft_while :: "int \<Rightarrow> drecord list \<Rightarrow> drecord list" where
  "popleft_while m [] = []"
| "popleft_while m (r # q) = (if seqnum r \<le> m then popleft_while m q else r # q)"

definition handle_ack :: "int \<Rightarrow> outbound \<Rightarrow> outbound" where
  "handle_ack resp_seqnum s =
     s\<lparr>outbound_queue := popleft_while resp_seqnum (outbound_queue s),
       queued_unsent := popleft_while resp_seqnum (queued_unsent s)\<rparr>"

subsection \<open>The producer registry\<close>

text \<open>
  \<^verbatim>\<open>subchannel_registerProducer\<close>. Two names in it are bound nowhere in the class:
  \<^verbatim>\<open>self.producer\<close>, read when the subchannel is already in the dict, and
  \<^verbatim>\<open>self._unpaused_producers\<close>, read for a push producer while unpaused (the set
  made by the constructor is \<^verbatim>\<open>_unpaused_push_producers\<close>). Reading either raises
  AttributeError.
\<close>

definition subchannel_registerProducer ::
    "env \<Rightarrow> subchannel \<Rightarrow> producer \<Rightarrow> bool \<Rightarrow> outbound \<Rightarrow> outcome \<times> outbound" where
  "subchannel_registerProducer env sc p streaming s =
     (if sc \<in> dom (subchannel_producers s) then (Raises AttributeError, s)
      else
        let s1 = s\<lparr>subchannel_producers := (subchannel_producers s)(sc \<mapsto> p),
                   all_producers := all_producers s @ [p]\<rparr>
        in if streaming \<and> \<not> paused s1 then (Raises AttributeError, s1)
           else
             let s2 = (if streaming
                       then s1\<lparr>paused_push_producers := insert p (paused_push_producers s1)\<rparr>
                       else s1\<lparr>pull_producers := insert p (pull_producers s1)\<rparr>)
             in if \<not> check_invariants s2 then (Raises AssertionError, s2)
                else if paused s2
                  then (if streaming
                        then (Returns, p_pauseProducing env p (emit (PauseSignal p) s2))
                        else (Returns, s2))
                  else (if \<not> streaming
                        then (Returns, p_resumeProducing env p (emit (ResumeSignal p) s2))
                        else (Returns, s2)))"

text \<open>
  \<^verbatim>\<open>subchannel_unregisterProducer\<close>: \<^verbatim>\<open>dict.pop\<close> raises KeyError on a missing
  key, \<^verbatim>\<open>deque.remove\<close> removes the first occurrence and raises ValueError when there
  is none, \<^verbatim>\<open>set.discard\<close> never raises. The fifth statement reads
  \<^verbatim>\<open>self._unpaused_producers\<close>, so the method raises AttributeError there and its
  last statement, \<^verbatim>\<open>self._check_invariants()\<close>, is never run.
\<close>

definition subchannel_unregisterProducer :: "subchannel \<Rightarrow> outbound \<Rightarrow> outcome \<times> outbound" where
  "subchannel_unregisterProducer sc s =
     (case subchannel_producers s sc of
        None \<Rightarrow> (Raises KeyError, s)
      | Some p \<Rightarrow>
          let s1 = s\<lparr>subchannel_producers := (subchannel_producers s)(sc := None)\<rparr>
          in if p \<notin> set (all_producers s1) then (Raises ValueError, s1)
             else
               let s2 = s1\<lparr>all_producers := remove1 p (all_producers s1)\<rparr>;
                   s3 = s2\<lparr>pull_producers := pull_producers s2 - {p}\<rparr>;
                   s4 = s3\<lparr>paused_push_producers := paused_push_producers s3 - {p}\<rparr>
               in (Raises AttributeError, s4))"

text \<open>\<^verbatim>\<open>subchannel_closed(scid, sc)\<close> does not read \<^verbatim>\<open>scid\<close>.\<close>

definition subchannel_closed :: "subchannel \<Rightarrow> outbound \<Rightarrow> outcome \<times> outbound" where
  "subchannel_closed sc s =
     (if \<not> check_invariants s then (Raises AssertionError, s)
      else if sc \<in> dom (subchannel_producers s) then subchannel_unregisterProducer sc s
      else (Returns, s))"

subsection \<open>The aggregate flow controller\<close>

text \<open>
  \<^verbatim>\<open>pauseProducing\<close>. The loop body calls \<^verbatim>\<open>set.pop\<close> with an argument, which
  raises TypeError, so the first producer of the deque found in the unpaused set ends
  the method there; the statements after the call, the producer's own
  \<^verbatim>\<open>pauseProducing()\<close> among them, are never run.
\<close>

fun pause_loop :: "producer list \<Rightarrow> outbound \<Rightarrow> outcome \<times> outbound" where
  "pause_loop [] s = (Returns, s)"
| "pause_loop (p # ps) s =
     (if p \<in> unpaused_push_producers s then (Raises TypeError, s) else pause_loop ps s)"

definition pauseProducing :: "outbound \<Rightarrow> outcome \<times> outbound" where
  "pauseProducing s =
     (if paused s then (Returns, s)
      else let s1 = s\<lparr>paused := True\<rparr> in pause_loop (all_producers s1) s1)"

text \<open>
  The \<^verbatim>\<open>while True\<close> of \<^verbatim>\<open>_get_next_unpaused_producer\<close>: take the head of the
  deque (IndexError on an empty deque), rotate it to the end, return it when it is in
  the pull set or in the paused push set. Nothing bounds the loop, so it is a partial
  function: \<open>None\<close> is not returning.
\<close>

partial_function (option) rotate_loop ::
    "producer set \<Rightarrow> producer set \<Rightarrow> producer list \<Rightarrow> ((error + producer) \<times> producer list) option" where
  "rotate_loop pull ppush dq =
     (case dq of
        [] \<Rightarrow> Some (Inl IndexError, dq)
      | p # rest \<Rightarrow>
          if p \<in> pull \<or> p \<in> ppush then Some (Inr p, rest @ [p])
          else rotate_loop pull ppush (rest @ [p]))"

declare rotate_loop.simps [code]

definition get_next_unpaused_producer ::
    "outbound \<Rightarrow> ((error + producer option) \<times> outbound) option" where
  "get_next_unpaused_producer s =
     (if \<not> check_invariants s then Some (Inl AssertionError, s)
      else if pull_producers s = {} \<and> paused_push_producers s = {} then Some (Inr None, s)
      else
        (case rotate_loop (pull_producers s) (paused_push_producers s) (all_producers s) of
           None \<Rightarrow> None
         | Some (Inl e, dq) \<Rightarrow> Some (Inl e, s\<lparr>all_producers := dq\<rparr>)
         | Some (Inr p, dq) \<Rightarrow> Some (Inr (Some p), s\<lparr>all_producers := dq\<rparr>)))"

text \<open>
  The drain loop of \<^verbatim>\<open>resumeProducing\<close>; the first argument counts the iterations
  of the loop body still allowed. A producer object is truthy, so the test
  \<^verbatim>\<open>if not p\<close> is the test for \<^verbatim>\<open>None\<close>.
\<close>

fun resume_loop :: "nat \<Rightarrow> env \<Rightarrow> outbound \<Rightarrow> outcome \<times> outbound" where
  "resume_loop 0 env s = (if paused s then (Returns, s) else (OutOfFuel, s))"
| "resume_loop (Suc n) env s =
     (if paused s then (Returns, s)
      else
        (case queued_unsent s of
           r # rest \<Rightarrow>
             resume_loop n env (m_send_record env r (emit (SendRecord r) (s\<lparr>queued_unsent := rest\<rparr>)))
         | [] \<Rightarrow>
             (case get_next_unpaused_producer s of
                None \<Rightarrow> (Diverges, s)
              | Some (Inl e, s') \<Rightarrow> (Raises e, s')
              | Some (Inr None, s') \<Rightarrow> (Returns, s')
              | Some (Inr (Some p), s') \<Rightarrow>
                  resume_loop n env (p_resumeProducing env p (emit (ResumeSignal p) s')))))"

definition resumeProducing :: "nat \<Rightarrow> env \<Rightarrow> outbound \<Rightarrow> outcome \<times> outbound" where
  "resumeProducing n env s =
     (if \<not> paused s then (Returns, s) else resume_loop n env (s\<lparr>paused := False\<rparr>))"

definition stopProducing :: "outbound \<Rightarrow> outcome \<times> outbound" where
  "stopProducing s = pauseProducing s"

subsection \<open>The connection binding\<close>

definition use_connection :: "nat \<Rightarrow> env \<Rightarrow> outbound \<Rightarrow> outcome \<times> outbound" where
  "use_connection n env s =
     (if queued_unsent s \<noteq> [] then (Raises AssertionError, s)
      else
        let s1 = s\<lparr>queued_unsent := queued_unsent s @ outbound_queue s\<rparr>;
            s2 = c_registerProducer env (emit RegisterProducer s1)
        in resumeProducing n env s2)"

definition stop_using_connection :: "outbound \<Rightarrow> outcome \<times> outbound" where
  "stop_using_connection s = pauseProducing (s\<lparr>queued_unsent := []\<rparr>)"

subsection \<open>Sequences of calls\<close>

text \<open>
  Registering the push producers of a list on their subchannels, one call of
  \<^verbatim>\<open>subchannel_registerProducer(sc, p, True)\<close> after the other; an exception ends
  the sequence.
\<close>

fun register_all :: "env \<Rightarrow> (subchannel \<times> producer) list \<Rightarrow> outbound \<Rightarrow> outcome \<times> outbound" where
  "register_all env [] s = (Returns, s)"
| "register_all env ((sc, p) # regs) s =
     (case subchannel_registerProducer env sc p True s of
        (Returns, s') \<Rightarrow> register_all env regs s'
      | (out, s') \<Rightarrow> (out, s'))"

text \<open>
  The public methods as calls, and a session: calls made one after the other on the
  same object, each with the number of drain-loop iterations it is followed for. The
  caller goes on after an exception, with the state the exception left.
\<close>

datatype call =
    BuildRecord kind string
  | QueueRecord drecord
  | Register subchannel producer bool
  | Unregister subchannel
  | Closed subchannel
  | UseConnection
  | StopUsingConnection
  | HandleAck int
  | Pause
  | Resume
  | Stop

fun perform :: "nat \<Rightarrow> env \<Rightarrow> call \<Rightarrow> outbound \<Rightarrow> outcome \<times> outbound" where
  "perform n env (BuildRecord k args) s = (Returns, snd (build_record k args s))"
| "perform n env (QueueRecord r) s = (Returns, queue_record r s)"
| "perform n env (Register sc p streaming) s = subchannel_registerProducer env sc p streaming s"
| "perform n env (Unregister sc) s = subchannel_unregisterProducer sc s"
| "perform n env (Closed sc) s = subchannel_closed sc s"
| "perform n env UseConnection s = use_connection n env s"
| "perform n env StopUsingConnection s = stop_using_connection s"
| "perform n env (HandleAck m) s = (Returns, handle_ack m s)"
| "perform n env Pause s = pauseProducing s"
| "perform n env Resume s = resumeProducing n env s"
| "perform n env Stop s = stopProducing s"

fun run :: "env \<Rightarrow> (nat \<times> call) list \<Rightarrow> outbound \<Rightarrow> outbound" where
  "run env [] s = s"
| "run env ((n, c) # cs) s = run env cs (snd (perform n env c s))"

text \<open>
  Modelled from the spec: the manager's own send path is in another module. It builds a
  record with \<^verbatim>\<open>build_record\<close> and hands that same record to
  \<^verbatim>\<open>queue_record\<close>; \<open>write_record\<close> is the two calls together.
\<close>

definition write_record :: "kind \<Rightarrow> string \<Rightarrow> outbound \<Rightarrow> outbound" where
  "write_record k args s = (case build_record k args s of (r, s') \<Rightarrow> queue_record r s')"

text \<open>
  A manager session: the manager writes records and calls methods, in any order. A
  session \<open>queues_nothing_raw\<close> when every record it queues comes from
  \<open>write_record\<close>.
\<close>

datatype manager_call = Write kind string | Method nat call

fun manager_step :: "env \<Rightarrow> manager_call \<Rightarrow> outbound \<Rightarrow> outbound" where
  "manager_step env (Write k args) s = write_record k args s"
| "manager_step env (Method n c) s = snd (perform n env c s)"

fun manager_run :: "env \<Rightarrow> manager_call list \<Rightarrow> outbound \<Rightarrow> outbound" where
  "manager_run env [] s = s"
| "manager_run env (c # cs) s = manager_run env cs (manager_step env c s)"


subsection \<open>What collaborators may touch\<close>

text \<open>
  A call into a collaborator \<open>keeps_scheduler\<close> when it leaves the pause flag, the
  deque, the three sets, the replay queue and the calls made so far as they are (a
  producer that writes a record does); it \<open>keeps_replay\<close> when it leaves the replay
  queue and the calls made so far (a send that makes the connection call
  \<^verbatim>\<open>pauseProducing\<close> does); it \<open>adds_no_work\<close> when it registers nothing
  for the scheduler and does not lengthen the replay queue.
\<close>

definition keeps_scheduler :: "outbound \<Rightarrow> outbound \<Rightarrow> bool" where
  "keeps_scheduler s' s =
     (paused s' = paused s \<and> all_producers s' = all_producers s \<and>
      pull_producers s' = pull_producers s \<and>
      paused_push_producers s' = paused_push_producers s \<and>
      unpaused_push_producers s' = unpaused_push_producers s \<and>
      queued_unsent s' = queued_unsent s \<and> trace s' = trace s)"


definition adds_no_work :: "outbound \<Rightarrow> outbound \<Rightarrow> bool" where
  "adds_no_work s' s =
     (pull_producers s' = pull_producers s \<and>
      paused_push_producers s' = paused_push_producers s \<and>
      length (queued_unsent s') \<le> length (queued_unsent s))"



subsection \<open>Reading outcomes and traces\<close>

text \<open>
  A call has finished when it returned or raised. \<open>sends\<close> are the records handed to
  the manager, in order. \<open>replay_then_turns q evs\<close>: the calls \<open>evs\<close> are sends of
  the records of \<open>q\<close> from its head, in order, and any call after them is a resume
  signal to a producer that comes only once all of \<open>q\<close> has been sent.
\<close>

fun finished :: "outcome \<Rightarrow> bool" where
  "finished Returns = True"
| "finished (Raises e) = True"
| "finished OutOfFuel = False"
| "finished Diverges = False"



text \<open>What a list of registrations has changed, when each returned.\<close>

definition registered :: "(subchannel \<times> producer) list \<Rightarrow> outbound \<Rightarrow> outbound \<Rightarrow> bool" where
  "registered regs s s1 =
     (paused s1 = paused s \<and> queued_unsent s1 = queued_unsent s \<and>
      dom (subchannel_producers s1) = dom (subchannel_producers s) \<union> fst ` set regs \<and>
      all_producers s1 = all_producers s @ map snd regs \<and>
      pull_producers s1 = pull_producers s \<and>
      paused_push_producers s1 = paused_push_producers s \<union> snd ` set regs \<and>
      unpaused_push_producers s1 = unpaused_push_producers s \<and>
      trace s1 = trace s @ map (PauseSignal \<circ> snd) regs)"

subsection \<open>Concrete states\<close>

text \<open>Three records with the seqnums 0, 1 and 2 in the backlog, nothing else.\<close>

definition ledger3 :: outbound where
  "ledger3 = attrs_post_init\<lparr>outbound_queue :=
      [\<lparr>seqnum = 0, rkind = Open, payload = ''a''\<rparr>,
       \<lparr>seqnum = 1, rkind = Data, payload = ''b''\<rparr>,
       \<lparr>seqnum = 2, rkind = Close, payload = ''c''\<rparr>]\<rparr>"

definition three_regs :: "(subchannel \<times> producer) list" where
  "three_regs = [(1, 10), (2, 20), (3, 30)]"

text \<open>
  One pull producer, 10, registered on subchannel 1 of a new object; and the ledger of
  three records with all three waiting in the replay queue.
\<close>

definition one_pull :: outbound where
  "one_pull = snd (subchannel_registerProducer quiet 1 10 False attrs_post_init)"

definition replaying3 :: outbound where
  "replaying3 = ledger3\<lparr>queued_unsent := outbound_queue ledger3\<rparr>"

text \<open>
  A producer whose \<^verbatim>\<open>resumeProducing\<close> writes enough to make the connection call
  \<^verbatim>\<open>pauseProducing\<close> on the object before it returns; and a session with it.
\<close>

definition repausing :: env where
  "repausing = quiet\<lparr>p_resumeProducing := (\<lambda>p s. snd (pauseProducing s))\<rparr>"

definition session :: "(nat \<times> call) list" where
  "session = [(0, Register 1 10 True), (0, Register 2 20 False), (5, Resume),
              (0, Unregister 1), (5, Resume), (0, Register 3 30 True), (0, Pause)]"

text \<open>
  One push producer, 10, registered on subchannel 1 of a new object; and a new object
  after one \<^verbatim>\<open>resumeProducing\<close>, unpaused with nothing registered.
\<close>

definition one_push :: outbound where
  "one_push = snd (subchannel_registerProducer quiet 1 10 True attrs_post_init)"

definition unpaused_idle :: outbound where
  "unpaused_idle = snd (resumeProducing 1 quiet attrs_post_init)"

text \<open>
  A producer that, in its turn, writes one record through the manager; a manager whose
  send fills the connection, which calls \<^verbatim>\<open>pauseProducing\<close> before the send
  returns; and a manager session that writes two records and registers push producer 10.
\<close>

definition writing :: env where
  "writing = quiet\<lparr>p_resumeProducing :=
     (\<lambda>p s. queue_record (fst (build_record Data ''x'' s)) (snd (build_record Data ''x'' s)))\<rparr>"

definition backpressure :: env where
  "backpressure = quiet\<lparr>m_send_record := (\<lambda>r s. snd (pauseProducing s))\<rparr>"

definition written2 :: "manager_call list" where
  "written2 = [Write Open ''a'', Write Data ''b'', Method 0 (Register 1 10 True)]"

section \<open>Properties\<close>

subsection \<open>Acknowledgments trim the ledger\<close>

lemma popleft_while_sorted:
  "sorted (map seqnum q) \<Longrightarrow> popleft_while m q = filter (\<lambda>r. m < seqnum r) q"
proof (induction q)
  case Nil
  then show ?case by simp
next
  case (Cons r q)
  show ?case
  proof (cases "seqnum r \<le> m")
    case True
    with Cons show ?thesis by simp
  next
    case False
    with Cons.prems have "\<forall>x\<in>set q. m < seqnum x" by auto
    then have "filter (\<lambda>r. m < seqnum r) q = q" by (simp add: filter_id_conv)
    with False show ?thesis by simp
  qed
qed

lemma popleft_while_mono:
  "m1 \<le> m2 \<Longrightarrow> popleft_while m2 (popleft_while m1 q) = popleft_while m2 q"
  by (induction q) auto

text \<open>
  Claim C5. When the backlog and the replay queue are sorted by seqnum,
  \<^verbatim>\<open>handle_ack(m)\<close> leaves in each exactly the entries with a seqnum above \<open>m\<close>,
  in their order, and changes nothing else; it changes nothing at all when no entry has
  a seqnum up to \<open>m\<close>; a second call with the same value changes nothing more, and a
  call with \<open>m\<close> followed by one with \<open>m' \<ge> m\<close> leaves what the call with \<open>m'\<close>
  alone leaves.
\<close>

theorem handle_ack_retires:
  assumes "sorted (map seqnum (outbound_queue s))"
      and "sorted (map seqnum (queued_unsent s))"
  shows "handle_ack m s =
           s\<lparr>outbound_queue := filter (\<lambda>r. m < seqnum r) (outbound_queue s),
             queued_unsent := filter (\<lambda>r. m < seqnum r) (queued_unsent s)\<rparr>
         \<and> ((\<forall>r \<in> set (outbound_queue s) \<union> set (queued_unsent s). m < seqnum r)
              \<longrightarrow> handle_ack m s = s)
         \<and> handle_ack m (handle_ack m s) = handle_ack m s
         \<and> (\<forall>m'. m \<le> m' \<longrightarrow> handle_ack m' (handle_ack m s) = handle_ack m' s)"
proof -
  have eq: "handle_ack m s =
           s\<lparr>outbound_queue := filter (\<lambda>r. m < seqnum r) (outbound_queue s),
             queued_unsent := filter (\<lambda>r. m < seqnum r) (queued_unsent s)\<rparr>"
    using assms by (simp add: handle_ack_def popleft_while_sorted)
  have noop: "handle_ack m s = s"
    if "\<forall>r \<in> set (outbound_queue s) \<union> set (queued_unsent s). m < seqnum r"
  proof -
    from that have "filter (\<lambda>r. m < seqnum r) (outbound_queue s) = outbound_queue s"
      and "filter (\<lambda>r. m < seqnum r) (queued_unsent s) = queued_unsent s"
      by (simp_all add: filter_id_conv)
    with eq show ?thesis by simp
  qed
  have mono: "handle_ack m' (handle_ack m s) = handle_ack m' s" if "m \<le> m'" for m'
    using that by (simp add: handle_ack_def popleft_while_mono)
  from eq noop mono show ?thesis by blast
qed

theorem handle_ack_retires_witness:
  "outbound_queue (handle_ack 1 ledger3) = [\<lparr>seqnum = 2, rkind = Close, payload = ''c''\<rparr>]
   \<and> handle_ack 1 (handle_ack 1 ledger3) = handle_ack 1 ledger3
   \<and> handle_ack 2 (handle_ack 1 ledger3) = handle_ack 2 ledger3
   \<and> handle_ack (- 1) ledger3 = ledger3"
proof -
  have a: "sorted (map seqnum (outbound_queue ledger3))"
    by (simp add: ledger3_def attrs_post_init_def)
  have b: "sorted (map seqnum (queued_unsent ledger3))"
    by (simp add: ledger3_def attrs_post_init_def)
  note h = handle_ack_retires [OF a b, of 1]
  from h have c1: "handle_ack 1 ledger3 =
           ledger3\<lparr>outbound_queue := filter (\<lambda>r. 1 < seqnum r) (outbound_queue ledger3),
             queued_unsent := filter (\<lambda>r. 1 < seqnum r) (queued_unsent ledger3)\<rparr>"
    by blast
  from h have c3: "handle_ack 1 (handle_ack 1 ledger3) = handle_ack 1 ledger3"
    by blast
  from h have m: "\<forall>m'\<ge>1. handle_ack m' (handle_ack 1 ledger3) = handle_ack m' ledger3"
    by blast
  have c4: "handle_ack 2 (handle_ack 1 ledger3) = handle_ack 2 ledger3"
    by (rule m [rule_format]) simp
  have c5: "\<forall>r \<in> set (outbound_queue ledger3) \<union> set (queued_unsent ledger3). - 1 < seqnum r"
    by (simp add: ledger3_def attrs_post_init_def)
  from handle_ack_retires [OF a b, of "- 1"] c5 have c6: "handle_ack (- 1) ledger3 = ledger3"
    by blast
  have "outbound_queue (handle_ack 1 ledger3) = [\<lparr>seqnum = 2, rkind = Close, payload = ''c''\<rparr>]"
    by (subst c1) (simp add: ledger3_def attrs_post_init_def)
  with c3 c4 c6 show ?thesis by blast
qed

subsection \<open>The scheduler and the drain loop\<close>

lemma rotate_loop_found:
  "p \<in> pull \<or> p \<in> ppush \<Longrightarrow> \<forall>q \<in> set pre. q \<notin> pull \<and> q \<notin> ppush \<Longrightarrow>
   rotate_loop pull ppush (pre @ p # post) = Some (Inr p, post @ pre @ [p])"
proof (induction pre arbitrary: post)
  case Nil
  then show ?case by (subst rotate_loop.simps) simp
next
  case (Cons a pre)
  from Cons.prems have a: "a \<notin> pull" "a \<notin> ppush" by simp_all
  have "rotate_loop pull ppush ((a # pre) @ p # post) = rotate_loop pull ppush (pre @ p # (post @ [a]))"
    using a by (subst rotate_loop.simps) simp
  also have "\<dots> = Some (Inr p, (post @ [a]) @ pre @ [p])"
    using Cons.prems by (intro Cons.IH) simp_all
  finally show ?case by simp
qed

lemma rotate_loop_head:
  "p \<in> pull \<or> p \<in> ppush \<Longrightarrow> rotate_loop pull ppush (p # rest) = Some (Inr p, rest @ [p])"
  using rotate_loop_found [of p pull ppush "[]" rest] by simp

lemma rotate_loop_total:
  assumes "\<exists>p \<in> set dq. p \<in> pull \<or> p \<in> ppush"
  shows "\<exists>p dq'. rotate_loop pull ppush dq = Some (Inr p, dq') \<and> (p \<in> pull \<or> p \<in> ppush)
           \<and> set dq' = set dq"
proof -
  from assms obtain pre p post where
    "dq = pre @ p # post" "p \<in> pull \<or> p \<in> ppush" "\<forall>q \<in> set pre. \<not> (q \<in> pull \<or> q \<in> ppush)"
    using split_list_first_prop [of dq "\<lambda>p. p \<in> pull \<or> p \<in> ppush"] by blast
  then show ?thesis using rotate_loop_found [of p pull ppush pre post] by auto
qed

lemma get_next_returns:
  "\<exists>r. get_next_unpaused_producer s = Some r"
proof (cases "check_invariants s \<and> \<not> (pull_producers s = {} \<and> paused_push_producers s = {})")
  case False
  then show ?thesis by (auto simp: get_next_unpaused_producer_def)
next
  case True
  then have "\<exists>p \<in> set (all_producers s). p \<in> pull_producers s \<or> p \<in> paused_push_producers s"
    by (auto simp: check_invariants_def)
  from rotate_loop_total [OF this] True show ?thesis
    by (auto simp: get_next_unpaused_producer_def)
qed

lemma resume_loop_replay:
  "\<not> paused s \<Longrightarrow> m_send_record env = (\<lambda>r s. s) \<Longrightarrow> queued_unsent s = q @ rest \<Longrightarrow>
   resume_loop (length q + m) env s =
     resume_loop m env (s\<lparr>queued_unsent := rest, trace := trace s @ map SendRecord q\<rparr>)"
proof (induction q arbitrary: s)
  case Nil
  then have "s\<lparr>queued_unsent := rest\<rparr> = s" by (cases s) auto
  then show ?case by simp
next
  case (Cons r q)
  let ?s1 = "emit (SendRecord r) (s\<lparr>queued_unsent := q @ rest\<rparr>)"
  have "resume_loop (length (r # q) + m) env s = resume_loop (length q + m) env ?s1"
    using Cons.prems by simp
  also have "\<dots> = resume_loop m env (?s1\<lparr>queued_unsent := rest, trace := trace ?s1 @ map SendRecord q\<rparr>)"
    using Cons.prems by (intro Cons.IH) (simp_all add: emit_def)
  finally show ?case by (simp add: emit_def)
qed

lemma register_push_keeps:
  assumes cb: "\<And>p u. keeps_scheduler (p_pauseProducing env p u) u
                 \<and> subchannel_producers (p_pauseProducing env p u) = subchannel_producers u"
    and "paused s" and "check_invariants s" and "sc \<notin> dom (subchannel_producers s)"
    and "p \<notin> pull_producers s" and "p \<notin> unpaused_push_producers s"
  shows "\<exists>s1. subchannel_registerProducer env sc p True s = (Returns, s1)
           \<and> registered [(sc, p)] s s1"
proof -
  let ?s2 = "s\<lparr>subchannel_producers := (subchannel_producers s)(sc \<mapsto> p),
               all_producers := all_producers s @ [p],
               paused_push_producers := insert p (paused_push_producers s)\<rparr>"
  let ?s3 = "p_pauseProducing env p (emit (PauseSignal p) ?s2)"
  have ci: "check_invariants ?s2" using assms(3,5,6) by (auto simp: check_invariants_def)
  have r: "subchannel_registerProducer env sc p True s = (Returns, ?s3)"
    using assms(2,4) ci by (simp add: subchannel_registerProducer_def Let_def)
  from cb [of p "emit (PauseSignal p) ?s2"]
  have "registered [(sc, p)] s ?s3"
    by (simp add: keeps_scheduler_def registered_def emit_def)
  with r show ?thesis by blast
qed

lemma registered_trans:
  "registered [r] s s1 \<Longrightarrow> registered regs s1 s2 \<Longrightarrow> registered (r # regs) s s2"
  by (auto simp: registered_def)

lemma register_all_keeps:
  assumes cb: "\<And>p u. keeps_scheduler (p_pauseProducing env p u) u
                 \<and> subchannel_producers (p_pauseProducing env p u) = subchannel_producers u"
  shows "paused s \<Longrightarrow> check_invariants s \<Longrightarrow> distinct (map fst regs) \<Longrightarrow>
    fst ` set regs \<inter> dom (subchannel_producers s) = {} \<Longrightarrow>
    snd ` set regs \<inter> (pull_producers s \<union> unpaused_push_producers s) = {} \<Longrightarrow>
    \<exists>s1. register_all env regs s = (Returns, s1) \<and> registered regs s s1"
proof (induction regs arbitrary: s)
  case Nil
  then show ?case by (simp add: registered_def)
next
  case (Cons r regs)
  obtain sc p where r: "r = (sc, p)" by (cases r)
  have "\<exists>s1. subchannel_registerProducer env sc p True s = (Returns, s1)
           \<and> registered [(sc, p)] s s1"
  proof (rule register_push_keeps [OF cb])
    show "paused s" "check_invariants s" by fact+
    show "sc \<notin> dom (subchannel_producers s)" using Cons.prems(4) r by auto
    show "p \<notin> pull_producers s" "p \<notin> unpaused_push_producers s"
      using Cons.prems(5) r by auto
  qed
  then obtain s1 where one: "subchannel_registerProducer env sc p True s = (Returns, s1)"
    and reg1: "registered [(sc, p)] s s1" by blast
  have "\<exists>s2. register_all env regs s1 = (Returns, s2) \<and> registered regs s1 s2"
  proof (rule Cons.IH)
    show "paused s1" using reg1 Cons.prems(1) by (simp add: registered_def)
    show "check_invariants s1"
    proof -
      from Cons.prems(5) r have "p \<notin> pull_producers s" "p \<notin> unpaused_push_producers s"
        by auto
      with reg1 Cons.prems(2) show ?thesis
        by (auto simp: registered_def check_invariants_def)
    qed
    show "distinct (map fst regs)" using Cons.prems(3) by simp
    show "fst ` set regs \<inter> dom (subchannel_producers s1) = {}"
    proof -
      from Cons.prems(3) r have "sc \<notin> fst ` set regs" by auto
      moreover from Cons.prems(4) have "fst ` set regs \<inter> dom (subchannel_producers s) = {}"
        by auto
      moreover from reg1 have "dom (subchannel_producers s1) = insert sc (dom (subchannel_producers s))"
        by (simp add: registered_def)
      ultimately show ?thesis by auto
    qed
    show "snd ` set regs \<inter> (pull_producers s1 \<union> unpaused_push_producers s1) = {}"
      using reg1 Cons.prems(5) by (auto simp: registered_def)
  qed
  then obtain s2 where rest: "register_all env regs s1 = (Returns, s2)"
    and reg2: "registered regs s1 s2" by blast
  from one rest r have "register_all env (r # regs) s = (Returns, s2)" by simp
  moreover from reg1 reg2 r have "registered (r # regs) s s2" by (simp add: registered_trans)
  ultimately show ?case by blast
qed

lemma resume_loop_turns_keeps:
  assumes cb: "\<And>p u. keeps_scheduler (p_resumeProducing env p u) u"
  shows "\<not> paused s \<Longrightarrow> queued_unsent s = [] \<Longrightarrow> check_invariants s \<Longrightarrow>
   all_producers s = ps @ rest \<Longrightarrow>
   set ps \<subseteq> pull_producers s \<union> paused_push_producers s \<Longrightarrow>
   \<exists>s'. resume_loop (length ps + m) env s = resume_loop m env s'
      \<and> \<not> paused s' \<and> trace s' = trace s @ map ResumeSignal ps
      \<and> all_producers s' = rest @ ps"
proof (induction ps arbitrary: s rest)
  case Nil
  then show ?case by (intro exI [of _ s]) simp
next
  case (Cons p ps)
  let ?s0 = "s\<lparr>all_producers := (ps @ rest) @ [p]\<rparr>"
  let ?s1 = "p_resumeProducing env p (emit (ResumeSignal p) ?s0)"
  from Cons.prems have el: "p \<in> pull_producers s \<or> p \<in> paused_push_producers s" by auto
  then have ne: "\<not> (pull_producers s = {} \<and> paused_push_producers s = {})" by auto
  have g: "get_next_unpaused_producer s = Some (Inr (Some p), ?s0)"
    using Cons.prems ne rotate_loop_head [OF el, of "ps @ rest"]
    by (simp add: get_next_unpaused_producer_def)
  have step: "resume_loop (length (p # ps) + m) env s = resume_loop (length ps + m) env ?s1"
    using Cons.prems g by simp
  from cb [of p "emit (ResumeSignal p) ?s0"]
  have k: "paused ?s1 = paused s" "all_producers ?s1 = ps @ (rest @ [p])"
    "pull_producers ?s1 = pull_producers s" "paused_push_producers ?s1 = paused_push_producers s"
    "unpaused_push_producers ?s1 = unpaused_push_producers s" "queued_unsent ?s1 = queued_unsent s"
    "trace ?s1 = trace s @ [ResumeSignal p]"
    by (simp_all add: keeps_scheduler_def emit_def)
  have "\<exists>s'. resume_loop (length ps + m) env ?s1 = resume_loop m env s'
      \<and> \<not> paused s' \<and> trace s' = trace ?s1 @ map ResumeSignal ps
      \<and> all_producers s' = (rest @ [p]) @ ps"
  proof (rule Cons.IH)
    show "\<not> paused ?s1" using k Cons.prems by simp
    show "queued_unsent ?s1 = []" using k Cons.prems by simp
    show "check_invariants ?s1"
      using k Cons.prems(3,4) by (auto simp: check_invariants_def)
    show "all_producers ?s1 = ps @ (rest @ [p])" using k by simp
    show "set ps \<subseteq> pull_producers ?s1 \<union> paused_push_producers ?s1"
      using k Cons.prems(5) by auto
  qed
  then obtain s' where "resume_loop (length ps + m) env ?s1 = resume_loop m env s'"
    "\<not> paused s'" "trace s' = trace ?s1 @ map ResumeSignal ps"
    "all_producers s' = (rest @ [p]) @ ps" by blast
  with step k show ?case by (intro exI [of _ s']) simp
qed

text \<open>
  Claim C1. Start from a paused object with nothing registered and an empty replay
  queue, register N distinct push producers on N distinct subchannels, with producers
  whose \<^verbatim>\<open>pauseProducing\<close> and \<^verbatim>\<open>resumeProducing\<close> leave the pause flag,
  the deque, the sets, the replay queue and the calls made so far as they are (no
  re-entrant pause; they may write records). Every registration returns and signals the
  new producer to pause. One call of \<^verbatim>\<open>resumeProducing\<close> then signals, in its
  first \<open>k \<le> N\<close> iterations, exactly the first \<open>k\<close> producers in registration order,
  one resume signal each: every producer has had its one signal before any has a second.
  (The call is still in its loop after N iterations.)
\<close>

theorem resume_round_robin:
  assumes "\<And>p u. keeps_scheduler (p_pauseProducing env p u) u
               \<and> subchannel_producers (p_pauseProducing env p u) = subchannel_producers u"
    and "\<And>p u. keeps_scheduler (p_resumeProducing env p u) u"
    and "paused s0" and "queued_unsent s0 = []"
    and "subchannel_producers s0 = Map.empty" and "all_producers s0 = []"
    and "pull_producers s0 = {}" and "paused_push_producers s0 = {}"
    and "unpaused_push_producers s0 = {}"
    and "distinct (map fst regs)" and "distinct (map snd regs)"
  shows "\<exists>s1. register_all env regs s0 = (Returns, s1)
           \<and> trace s1 = trace s0 @ map (PauseSignal \<circ> snd) regs
           \<and> (\<forall>k \<le> length regs. \<exists>s2.
                 resumeProducing k env s1 = (OutOfFuel, s2)
                 \<and> trace s2 = trace s1 @ map ResumeSignal (take k (map snd regs)))"
proof -
  have inv0: "check_invariants s0" using assms by (simp add: check_invariants_def)
  have "fst ` set regs \<inter> dom (subchannel_producers s0) = {}"
    and "snd ` set regs \<inter> (pull_producers s0 \<union> unpaused_push_producers s0) = {}"
    using assms by simp_all
  from register_all_keeps [of env, OF assms(1) assms(3) inv0 assms(10) this]
  obtain s1 where reg: "register_all env regs s0 = (Returns, s1)"
    and r: "registered regs s0 s1" by blast
  from r assms have f: "paused s1" "queued_unsent s1 = []" "all_producers s1 = map snd regs"
    "pull_producers s1 = {}" "paused_push_producers s1 = snd ` set regs"
    "unpaused_push_producers s1 = {}" "trace s1 = trace s0 @ map (PauseSignal \<circ> snd) regs"
    by (simp_all add: registered_def)
  have turn: "\<exists>s2. resumeProducing k env s1 = (OutOfFuel, s2)
                 \<and> trace s2 = trace s1 @ map ResumeSignal (take k (map snd regs))"
    if k: "k \<le> length regs" for k
  proof -
    let ?u = "s1\<lparr>paused := False\<rparr>"
    let ?ps = "take k (map snd regs)"
    have len: "length ?ps = k" using k by simp
    have "\<exists>s'. resume_loop (length ?ps + 0) env ?u = resume_loop 0 env s'
      \<and> \<not> paused s' \<and> trace s' = trace ?u @ map ResumeSignal ?ps
      \<and> all_producers s' = drop k (map snd regs) @ ?ps"
    proof (rule resume_loop_turns_keeps [of env, OF assms(2)])
      show "\<not> paused ?u" by simp
      show "queued_unsent ?u = []" using f by simp
      show "check_invariants ?u" using f by (auto simp: check_invariants_def)
      show "all_producers ?u = ?ps @ drop k (map snd regs)" using f by simp
      show "set ?ps \<subseteq> pull_producers ?u \<union> paused_push_producers ?u"
        using f set_take_subset [of k "map snd regs"] by auto
    qed
    then obtain s' where "resume_loop k env ?u = resume_loop 0 env s'" "\<not> paused s'"
      "trace s' = trace s1 @ map ResumeSignal ?ps" using len by auto
    then show ?thesis using f by (intro exI [of _ s']) (simp add: resumeProducing_def)
  qed
  from reg f(7) turn show ?thesis by blast
qed

theorem resume_round_robin_witness:
  "fst (register_all writing three_regs attrs_post_init) = Returns
   \<and> resumeProducing 3 writing (snd (register_all writing three_regs attrs_post_init)) =
       (OutOfFuel, snd (resumeProducing 3 writing (snd (register_all writing three_regs attrs_post_init))))
   \<and> trace (snd (resumeProducing 3 writing (snd (register_all writing three_regs attrs_post_init)))) =
       [PauseSignal 10, PauseSignal 20, PauseSignal 30,
        ResumeSignal 10, ResumeSignal 20, ResumeSignal 30]"
proof -
  have "\<exists>s1. register_all writing three_regs attrs_post_init = (Returns, s1)
           \<and> trace s1 = trace attrs_post_init @ map (PauseSignal \<circ> snd) three_regs
           \<and> (\<forall>k \<le> length three_regs. \<exists>s2.
                 resumeProducing k writing s1 = (OutOfFuel, s2)
                 \<and> trace s2 = trace s1 @ map ResumeSignal (take k (map snd three_regs)))"
    by (rule resume_round_robin)
       (simp_all add: writing_def quiet_def attrs_post_init_def three_regs_def keeps_scheduler_def
          queue_record_def build_record_def)
  then obtain s1 where r: "register_all writing three_regs attrs_post_init = (Returns, s1)"
    and t1: "trace s1 = trace attrs_post_init @ map (PauseSignal \<circ> snd) three_regs"
    and all: "\<forall>k \<le> length three_regs. \<exists>s2.
                 resumeProducing k writing s1 = (OutOfFuel, s2)
                 \<and> trace s2 = trace s1 @ map ResumeSignal (take k (map snd three_regs))"
    by blast
  have "3 \<le> length three_regs" by (simp add: three_regs_def)
  with all obtain s2 where d: "resumeProducing 3 writing s1 = (OutOfFuel, s2)"
    and t2: "trace s2 = trace s1 @ map ResumeSignal (take 3 (map snd three_regs))"
    by blast
  from r d t1 t2 show ?thesis by (simp add: three_regs_def attrs_post_init_def)
qed

subsection \<open>Redundant pause and resume calls\<close>

lemma pause_loop_state: "snd (pause_loop ps s) = s"
  by (induction ps) auto

lemma pauseProducing_paused: "paused (snd (pauseProducing s))"
  by (simp add: pauseProducing_def Let_def pause_loop_state)

lemma get_next_paused:
  "get_next_unpaused_producer s = Some (r, s') \<Longrightarrow> paused s' = paused s"
  by (auto simp: get_next_unpaused_producer_def split: if_splits option.splits sum.splits prod.splits)

lemma resume_loop_stays_unpaused:
  assumes "\<And>p u. \<not> paused u \<Longrightarrow> \<not> paused (p_resumeProducing env p u)"
      and "\<And>r u. \<not> paused u \<Longrightarrow> \<not> paused (m_send_record env r u)"
  shows "\<not> paused s \<Longrightarrow> resume_loop n env s = (out, s') \<Longrightarrow> \<not> paused s'"
proof (induction n arbitrary: s)
  case 0
  then show ?case by (auto split: if_splits)
next
  case (Suc n)
  show ?case
  proof (cases "queued_unsent s")
    case (Cons r rest)
    let ?s1 = "m_send_record env r (emit (SendRecord r) (s\<lparr>queued_unsent := rest\<rparr>))"
    from Suc.prems Cons have "resume_loop n env ?s1 = (out, s')" by simp
    moreover have "\<not> paused ?s1" using Suc.prems by (intro assms(2)) (simp add: emit_def)
    ultimately show ?thesis by (rule Suc.IH [rotated])
  next
    case Nil
    obtain r s1 where g: "get_next_unpaused_producer s = Some (r, s1)"
      using get_next_returns [of s] by auto
    then have u: "\<not> paused s1" using Suc.prems get_next_paused by blast
    show ?thesis
    proof (cases r)
      case (Inl e)
      with Suc.prems Nil g u show ?thesis by auto
    next
      case (Inr po)
      show ?thesis
      proof (cases po)
        case None
        with Suc.prems Nil g u Inr show ?thesis by auto
      next
        case (Some p)
        let ?s2 = "p_resumeProducing env p (emit (ResumeSignal p) s1)"
        from Suc.prems Nil g Inr Some have "resume_loop n env ?s2 = (out, s')" by simp
        moreover have "\<not> paused ?s2" using u by (intro assms(1)) (simp add: emit_def)
        ultimately show ?thesis by (rule Suc.IH [rotated])
      qed
    qed
  qed
qed

text \<open>
  Claim C7. In every state, a second \<^verbatim>\<open>pauseProducing\<close> right after a first one
  returns at once and changes nothing: neither the state nor the signals sent. A second
  \<^verbatim>\<open>resumeProducing\<close> right after a first one that returned with the aggregate
  still unpaused (no pause in between) returns at once and changes nothing; and the
  aggregate is still unpaused whenever no producer and no send re-enters
  \<^verbatim>\<open>pauseProducing\<close> during the first call. Neither redundant call raises.
\<close>

theorem pause_resume_idempotent:
  "pauseProducing (snd (pauseProducing s)) = (Returns, snd (pauseProducing s))
   \<and> (\<forall>s'. resumeProducing n env s = (Returns, s') \<and> \<not> paused s'
          \<longrightarrow> resumeProducing m env s' = (Returns, s'))
   \<and> ((\<forall>p u. \<not> paused u \<longrightarrow> \<not> paused (p_resumeProducing env p u))
        \<and> (\<forall>r u. \<not> paused u \<longrightarrow> \<not> paused (m_send_record env r u))
        \<longrightarrow> (\<forall>s'. resumeProducing n env s = (Returns, s')
               \<longrightarrow> resumeProducing m env s' = (Returns, s')))"
proof -
  have a: "pauseProducing (snd (pauseProducing s)) = (Returns, snd (pauseProducing s))"
    using pauseProducing_paused [of s] by (simp add: pauseProducing_def [of "snd (pauseProducing s)"])
  have b: "resumeProducing m env s' = (Returns, s')" if "\<not> paused s'" for s'
    using that by (simp add: resumeProducing_def)
  have c: "\<not> paused s'"
    if cb: "(\<forall>p u. \<not> paused u \<longrightarrow> \<not> paused (p_resumeProducing env p u))
        \<and> (\<forall>r u. \<not> paused u \<longrightarrow> \<not> paused (m_send_record env r u))"
      and r: "resumeProducing n env s = (Returns, s')" for s'
  proof (cases "paused s")
    case False
    with r show ?thesis by (simp add: resumeProducing_def)
  next
    case True
    with r have "resume_loop n env (s\<lparr>paused := False\<rparr>) = (Returns, s')"
      by (simp add: resumeProducing_def)
    moreover have "\<not> paused (s\<lparr>paused := False\<rparr>)" by simp
    ultimately show ?thesis using cb resume_loop_stays_unpaused [of env] by blast
  qed
  from a b c show ?thesis by blast
qed

theorem pause_resume_idempotent_witness:
  "pauseProducing (snd (pauseProducing (attrs_post_init\<lparr>paused := False\<rparr>)))
     = (Returns, attrs_post_init)
   \<and> resumeProducing 1 quiet attrs_post_init = (Returns, attrs_post_init\<lparr>paused := False\<rparr>)
   \<and> resumeProducing 1 quiet (attrs_post_init\<lparr>paused := False\<rparr>)
       = (Returns, attrs_post_init\<lparr>paused := False\<rparr>)"
proof -
  note h = pause_resume_idempotent [of "attrs_post_init\<lparr>paused := False\<rparr>" 1 quiet 1]
  have p1: "snd (pauseProducing (attrs_post_init\<lparr>paused := False\<rparr>)) = attrs_post_init"
    by (simp add: pauseProducing_def attrs_post_init_def)
  from h have "pauseProducing (snd (pauseProducing (attrs_post_init\<lparr>paused := False\<rparr>)))
     = (Returns, snd (pauseProducing (attrs_post_init\<lparr>paused := False\<rparr>)))"
    by blast
  with p1 have a: "pauseProducing (snd (pauseProducing (attrs_post_init\<lparr>paused := False\<rparr>)))
     = (Returns, attrs_post_init)" by simp
  have r1: "resumeProducing 1 quiet attrs_post_init = (Returns, attrs_post_init\<lparr>paused := False\<rparr>)"
    by (simp add: resumeProducing_def attrs_post_init_def get_next_unpaused_producer_def
          check_invariants_def)
  have np: "\<not> paused (attrs_post_init\<lparr>paused := False\<rparr>)" by simp
  from pause_resume_idempotent [of attrs_post_init 1 quiet 1] r1 np
  have b: "resumeProducing 1 quiet (attrs_post_init\<lparr>paused := False\<rparr>)
       = (Returns, attrs_post_init\<lparr>paused := False\<rparr>)"
    by blast
  from a r1 b show ?thesis by blast
qed

subsection \<open>Replay on a new connection\<close>





















lemma written2_state:
  "manager_run quiet written2 attrs_post_init =
     attrs_post_init\<lparr>outbound_queue := [\<lparr>seqnum = 0, rkind = Open, payload = ''a''\<rparr>,
                                          \<lparr>seqnum = 1, rkind = Data, payload = ''b''\<rparr>],
                      next_outbound_seqnum := 2,
                      subchannel_producers := [1 \<mapsto> 10], all_producers := [10],
                      paused_push_producers := {10}, trace := [PauseSignal 10]\<rparr>"
  by (simp add: written2_def write_record_def build_record_def queue_record_def
        subchannel_registerProducer_def Let_def check_invariants_def emit_def
        attrs_post_init_def quiet_def)





subsection \<open>When the drain loop stops\<close>

lemma check_invariants_cong:
  "pull_producers s' = pull_producers s \<Longrightarrow> paused_push_producers s' = paused_push_producers s \<Longrightarrow>
   unpaused_push_producers s' = unpaused_push_producers s \<Longrightarrow>
   set (all_producers s') = set (all_producers s) \<Longrightarrow> check_invariants s' = check_invariants s"
  by (simp add: check_invariants_def)

lemma resume_loop_endless:
  assumes "p_resumeProducing env = (\<lambda>p s. s)"
  shows "\<not> paused s \<Longrightarrow> queued_unsent s = [] \<Longrightarrow> check_invariants s \<Longrightarrow>
    pull_producers s \<union> paused_push_producers s \<noteq> {} \<Longrightarrow> fst (resume_loop n env s) = OutOfFuel"
proof (induction n arbitrary: s)
  case 0
  then show ?case by simp
next
  case (Suc n)
  from Suc.prems have "\<exists>p \<in> set (all_producers s). p \<in> pull_producers s \<or> p \<in> paused_push_producers s"
    by (auto simp: check_invariants_def)
  from rotate_loop_total [OF this] obtain p dq where
    rl: "rotate_loop (pull_producers s) (paused_push_producers s) (all_producers s) = Some (Inr p, dq)"
    and dq: "set dq = set (all_producers s)" by blast
  let ?s1 = "emit (ResumeSignal p) (s\<lparr>all_producers := dq\<rparr>)"
  have g: "get_next_unpaused_producer s = Some (Inr (Some p), s\<lparr>all_producers := dq\<rparr>)"
    using Suc.prems rl by (auto simp: get_next_unpaused_producer_def)
  have step: "resume_loop (Suc n) env s = resume_loop n env ?s1"
    using Suc.prems g assms by simp
  have "check_invariants ?s1 = check_invariants s"
    by (rule check_invariants_cong) (simp_all add: emit_def dq)
  then have "fst (resume_loop n env ?s1) = OutOfFuel"
    using Suc.prems by (intro Suc.IH) (simp_all add: emit_def)
  with step show ?case by simp
qed

lemma resume_loop_idle:
  "\<not> paused s \<Longrightarrow> queued_unsent s = [] \<Longrightarrow> pull_producers s = {} \<Longrightarrow>
   paused_push_producers s = {} \<Longrightarrow>
   resume_loop (Suc n) env s = (if check_invariants s then Returns else Raises AssertionError, s)"
  by (simp add: get_next_unpaused_producer_def)

lemma pause_loop_finished: "finished (fst (pause_loop ps s))"
  by (induction ps) auto

lemma pauseProducing_finished: "finished (fst (pauseProducing s))"
  by (simp add: pauseProducing_def Let_def pause_loop_finished)

lemma register_finished: "finished (fst (subchannel_registerProducer env sc p streaming s))"
  by (simp add: subchannel_registerProducer_def Let_def)

lemma unregister_finished: "finished (fst (subchannel_unregisterProducer sc s))"
  by (simp add: subchannel_unregisterProducer_def Let_def split: option.splits)

lemma closed_finished: "finished (fst (subchannel_closed sc s))"
  by (simp add: subchannel_closed_def unregister_finished)

lemma resume_loop_idle_finishes:
  assumes send: "\<And>r u. adds_no_work (m_send_record env r u) u"
  shows "pull_producers s = {} \<Longrightarrow> paused_push_producers s = {} \<Longrightarrow>
    length (queued_unsent s) < n \<Longrightarrow>
    fst (resume_loop n env s) = Returns \<or> fst (resume_loop n env s) = Raises AssertionError"
proof (induction n arbitrary: s)
  case 0
  then show ?case by simp
next
  case (Suc n)
  show ?case
  proof (cases "paused s")
    case True
    then show ?thesis by simp
  next
    case False
    show ?thesis
    proof (cases "queued_unsent s")
      case Nil
      with False Suc.prems show ?thesis by (simp add: get_next_unpaused_producer_def)
    next
      case (Cons r rest)
      let ?s0 = "emit (SendRecord r) (s\<lparr>queued_unsent := rest\<rparr>)"
      let ?s1 = "m_send_record env r ?s0"
      from send [of r ?s0] Suc.prems Cons
      have "pull_producers ?s1 = {}" "paused_push_producers ?s1 = {}"
        "length (queued_unsent ?s1) < n"
        by (simp_all add: adds_no_work_def emit_def)
      then have "fst (resume_loop n env ?s1) = Returns
                 \<or> fst (resume_loop n env ?s1) = Raises AssertionError"
        by (rule Suc.IH)
      with False Cons show ?thesis by simp
    qed
  qed
qed

lemma resume_idle_exact:
  assumes "m_send_record env = (\<lambda>r s. s)"
    and "pull_producers s = {}" and "paused_push_producers s = {}"
    and "length (queued_unsent s) < n" and "paused s"
  shows "resumeProducing n env s =
           (if check_invariants s then Returns else Raises AssertionError,
            s\<lparr>paused := False, queued_unsent := [],
              trace := trace s @ map SendRecord (queued_unsent s)\<rparr>)"
proof -
  let ?u = "s\<lparr>paused := False\<rparr>"
  let ?v = "?u\<lparr>queued_unsent := [], trace := trace ?u @ map SendRecord (queued_unsent s)\<rparr>"
  define m where "m = n - Suc (length (queued_unsent s))"
  have n: "n = length (queued_unsent s) + Suc m"
    using assms(4) by (simp add: m_def)
  have ci: "check_invariants ?v = check_invariants s"
    by (rule check_invariants_cong) simp_all
  have "resume_loop (length (queued_unsent s) + Suc m) env ?u = resume_loop (Suc m) env ?v"
    by (rule resume_loop_replay) (simp_all add: assms)
  also have "\<dots> = (if check_invariants ?v then Returns else Raises AssertionError, ?v)"
    by (rule resume_loop_idle) (simp_all add: assms)
  finally have "resume_loop n env ?u =
      (if check_invariants s then Returns else Raises AssertionError, ?v)"
    unfolding ci n .
  with assms(5) show ?thesis by (simp add: resumeProducing_def)
qed

text \<open>
  Claim C3, as amended. Every method but \<^verbatim>\<open>resumeProducing\<close> and
  \<^verbatim>\<open>use_connection\<close> returns or raises, having no unbounded loop.
  \<^verbatim>\<open>resumeProducing\<close> returns at once when the aggregate is not paused. Called
  while no pull producer and no paused push producer is registered, with sends that
  register none and do not lengthen the replay queue, it returns, or raises
  AssertionError from the partition check, within as many iterations as the replay queue
  has records, plus one; so does \<^verbatim>\<open>use_connection\<close>, counted on the backlog,
  when the connection's \<^verbatim>\<open>registerProducer\<close> is of the same kind. With sends
  that change nothing it leaves the object unpaused, the replay queue empty and all its
  records sent in order.
\<close>

theorem entry_points_finish:
  "(c \<noteq> Resume \<and> c \<noteq> UseConnection \<longrightarrow> finished (fst (perform n env c s)))
   \<and> (\<not> paused s \<longrightarrow> resumeProducing n env s = (Returns, s))
   \<and> ((\<forall>r u. adds_no_work (m_send_record env r u) u)
        \<and> pull_producers s = {} \<and> paused_push_producers s = {}
        \<and> length (queued_unsent s) < n
       \<longrightarrow> fst (resumeProducing n env s) = Returns
           \<or> fst (resumeProducing n env s) = Raises AssertionError)
   \<and> ((\<forall>r u. adds_no_work (m_send_record env r u) u)
        \<and> (\<forall>u. adds_no_work (c_registerProducer env u) u)
        \<and> pull_producers s = {} \<and> paused_push_producers s = {}
        \<and> length (outbound_queue s) < n
       \<longrightarrow> fst (use_connection n env s) = Returns
           \<or> fst (use_connection n env s) = Raises AssertionError)
   \<and> (m_send_record env = (\<lambda>r s. s) \<and> paused s
        \<and> pull_producers s = {} \<and> paused_push_producers s = {}
        \<and> length (queued_unsent s) < n
       \<longrightarrow> resumeProducing n env s =
           (if check_invariants s then Returns else Raises AssertionError,
            s\<lparr>paused := False, queued_unsent := [],
              trace := trace s @ map SendRecord (queued_unsent s)\<rparr>))"
proof -
  have a: "finished (fst (perform n env c s))" if "c \<noteq> Resume" "c \<noteq> UseConnection"
    using that
    by (cases c)
       (simp_all add: register_finished unregister_finished closed_finished
          pauseProducing_finished stop_using_connection_def stopProducing_def)
  have b: "resumeProducing n env s = (Returns, s)" if "\<not> paused s"
    using that by (simp add: resumeProducing_def)
  have loop: "fst (resumeProducing k env u) = Returns
           \<or> fst (resumeProducing k env u) = Raises AssertionError"
    if send: "\<forall>r u. adds_no_work (m_send_record env r u) u"
      and "pull_producers u = {}" "paused_push_producers u = {}" "length (queued_unsent u) < k"
    for k u
  proof (cases "paused u")
    case False
    then show ?thesis by (simp add: resumeProducing_def)
  next
    case True
    have "fst (resume_loop k env (u\<lparr>paused := False\<rparr>)) = Returns
          \<or> fst (resume_loop k env (u\<lparr>paused := False\<rparr>)) = Raises AssertionError"
      using send that(2-4) by (intro resume_loop_idle_finishes) simp_all
    with True show ?thesis by (simp add: resumeProducing_def)
  qed
  have d: "fst (use_connection n env s) = Returns
           \<or> fst (use_connection n env s) = Raises AssertionError"
    if send: "\<forall>r u. adds_no_work (m_send_record env r u) u"
      and reg: "\<forall>u. adds_no_work (c_registerProducer env u) u"
      and "pull_producers s = {}" "paused_push_producers s = {}" "length (outbound_queue s) < n"
  proof (cases "queued_unsent s")
    case (Cons r rest)
    then show ?thesis by (simp add: use_connection_def)
  next
    case Nil
    let ?s1 = "emit RegisterProducer (s\<lparr>queued_unsent := queued_unsent s @ outbound_queue s\<rparr>)"
    let ?s2 = "c_registerProducer env ?s1"
    from reg have "adds_no_work ?s2 ?s1" by blast
    with that(3-5) Nil have "pull_producers ?s2 = {}" "paused_push_producers ?s2 = {}"
      "length (queued_unsent ?s2) < n"
      by (simp_all add: adds_no_work_def emit_def)
    from loop [OF send this] Nil show ?thesis by (simp add: use_connection_def Let_def)
  qed
  have e: "resumeProducing n env s =
           (if check_invariants s then Returns else Raises AssertionError,
            s\<lparr>paused := False, queued_unsent := [],
              trace := trace s @ map SendRecord (queued_unsent s)\<rparr>)"
    if "m_send_record env = (\<lambda>r s. s)" "paused s" "pull_producers s = {}"
      "paused_push_producers s = {}" "length (queued_unsent s) < n"
    using that by (intro resume_idle_exact)
  from a b loop [where k = n and u = s] d e show ?thesis by blast
qed

theorem entry_points_finish_witness:
  "finished (fst (perform 0 quiet (Closed 1) one_pull))
   \<and> resumeProducing 3 quiet (attrs_post_init\<lparr>paused := False\<rparr>)
       = (Returns, attrs_post_init\<lparr>paused := False\<rparr>)
   \<and> (fst (resumeProducing 4 backpressure replaying3) = Returns
        \<or> fst (resumeProducing 4 backpressure replaying3) = Raises AssertionError)
   \<and> (fst (use_connection 4 backpressure ledger3) = Returns
        \<or> fst (use_connection 4 backpressure ledger3) = Raises AssertionError)
   \<and> resumeProducing 4 quiet replaying3 =
       (Returns, replaying3\<lparr>paused := False, queued_unsent := [],
                   trace := map SendRecord (outbound_queue ledger3)\<rparr>)"
proof -
  have bp: "\<forall>r u. adds_no_work (m_send_record backpressure r u) u"
    by (simp add: backpressure_def quiet_def adds_no_work_def pauseProducing_def Let_def
          pause_loop_state)
  have bc: "\<forall>u. adds_no_work (c_registerProducer backpressure u) u"
    by (simp add: backpressure_def quiet_def adds_no_work_def)
  have idle: "pull_producers replaying3 = {}" "paused_push_producers replaying3 = {}"
    "length (queued_unsent replaying3) < 4" "paused replaying3"
    "pull_producers ledger3 = {}" "paused_push_producers ledger3 = {}"
    "length (outbound_queue ledger3) < 4"
    by (simp_all add: replaying3_def ledger3_def attrs_post_init_def)
  have a: "finished (fst (perform 0 quiet (Closed 1) one_pull))"
    using entry_points_finish [of "Closed 1" 0 quiet one_pull] by simp
  have b: "resumeProducing 3 quiet (attrs_post_init\<lparr>paused := False\<rparr>)
       = (Returns, attrs_post_init\<lparr>paused := False\<rparr>)"
    using entry_points_finish [of Pause 3 quiet "attrs_post_init\<lparr>paused := False\<rparr>"] by simp
  have c: "fst (resumeProducing 4 backpressure replaying3) = Returns
        \<or> fst (resumeProducing 4 backpressure replaying3) = Raises AssertionError"
    using entry_points_finish [of Pause 4 backpressure replaying3] bp idle by blast
  have d: "fst (use_connection 4 backpressure ledger3) = Returns
        \<or> fst (use_connection 4 backpressure ledger3) = Raises AssertionError"
    using entry_points_finish [of Pause 4 backpressure ledger3] bp bc idle by blast
  have q: "m_send_record quiet = (\<lambda>r s. s)" by (simp add: quiet_def)
  have "resumeProducing 4 quiet replaying3 =
           (if check_invariants replaying3 then Returns else Raises AssertionError,
            replaying3\<lparr>paused := False, queued_unsent := [],
              trace := trace replaying3 @ map SendRecord (queued_unsent replaying3)\<rparr>)"
    using entry_points_finish [of Pause 4 quiet replaying3] q idle by blast
  then have e: "resumeProducing 4 quiet replaying3 =
       (Returns, replaying3\<lparr>paused := False, queued_unsent := [],
                   trace := map SendRecord (outbound_queue ledger3)\<rparr>)"
    by (simp add: replaying3_def ledger3_def attrs_post_init_def check_invariants_def)
  from a b c d e show ?thesis by blast
qed

text \<open>
  The claim as stated fails: with one pull producer registered and no callback that
  pauses the aggregate or unregisters it, the scheduler names that producer on every
  iteration, and the call is still in its loop after any number of iterations.
\<close>

theorem resume_pull_never_returns:
  "\<forall>n. fst (resumeProducing n quiet one_pull) = OutOfFuel"
proof
  fix n
  have s: "one_pull = attrs_post_init\<lparr>subchannel_producers := [1 \<mapsto> 10], all_producers := [10],
                                       pull_producers := {10}\<rparr>"
    by (simp add: one_pull_def subchannel_registerProducer_def Let_def attrs_post_init_def
          check_invariants_def quiet_def)
  have "fst (resume_loop n quiet (one_pull\<lparr>paused := False\<rparr>)) = OutOfFuel"
    by (rule resume_loop_endless)
       (simp_all add: s quiet_def attrs_post_init_def check_invariants_def)
  moreover have "paused one_pull" by (simp add: s attrs_post_init_def)
  ultimately show "fst (resumeProducing n quiet one_pull) = OutOfFuel"
    by (simp add: resumeProducing_def)
qed

subsection \<open>The unpaused set\<close>

lemma pauseProducing_unpaused_set:
  "unpaused_push_producers (snd (pauseProducing s)) = unpaused_push_producers s"
  by (simp add: pauseProducing_def Let_def pause_loop_state)

lemma get_next_unpaused_set:
  "get_next_unpaused_producer s = Some (r, s') \<Longrightarrow>
   unpaused_push_producers s' = unpaused_push_producers s"
  by (auto simp: get_next_unpaused_producer_def split: if_splits option.splits sum.splits prod.splits)

lemma resume_loop_unpaused_set:
  assumes "\<And>p u. unpaused_push_producers u = {} \<Longrightarrow> unpaused_push_producers (p_resumeProducing env p u) = {}"
      and "\<And>r u. unpaused_push_producers u = {} \<Longrightarrow> unpaused_push_producers (m_send_record env r u) = {}"
  shows "unpaused_push_producers s = {} \<Longrightarrow> unpaused_push_producers (snd (resume_loop n env s)) = {}"
proof (induction n arbitrary: s)
  case 0
  then show ?case by simp
next
  case (Suc n)
  show ?case
  proof (cases "paused s")
    case True
    with Suc.prems show ?thesis by simp
  next
    case False
    show ?thesis
    proof (cases "queued_unsent s")
      case (Cons r rest)
      let ?s1 = "m_send_record env r (emit (SendRecord r) (s\<lparr>queued_unsent := rest\<rparr>))"
      have "unpaused_push_producers ?s1 = {}"
        using Suc.prems by (intro assms(2)) (simp add: emit_def)
      then have "unpaused_push_producers (snd (resume_loop n env ?s1)) = {}" by (rule Suc.IH)
      with False Cons show ?thesis by simp
    next
      case Nil
      obtain r s1 where g: "get_next_unpaused_producer s = Some (r, s1)"
        using get_next_returns [of s] by auto
      then have u: "unpaused_push_producers s1 = {}"
        using Suc.prems get_next_unpaused_set by blast
      show ?thesis
      proof (cases r)
        case (Inl e)
        with False Nil g u show ?thesis by simp
      next
        case (Inr po)
        show ?thesis
        proof (cases po)
          case None
          with False Nil g u Inr show ?thesis by simp
        next
          case (Some p)
          let ?s2 = "p_resumeProducing env p (emit (ResumeSignal p) s1)"
          have "unpaused_push_producers ?s2 = {}"
            using u by (intro assms(1)) (simp add: emit_def)
          then have "unpaused_push_producers (snd (resume_loop n env ?s2)) = {}" by (rule Suc.IH)
          with False Nil g Inr Some show ?thesis by simp
        qed
      qed
    qed
  qed
qed

lemma perform_unpaused_set:
  assumes "\<And>p u. unpaused_push_producers u = {} \<Longrightarrow> unpaused_push_producers (p_pauseProducing env p u) = {}"
      and "\<And>p u. unpaused_push_producers u = {} \<Longrightarrow> unpaused_push_producers (p_resumeProducing env p u) = {}"
      and "\<And>r u. unpaused_push_producers u = {} \<Longrightarrow> unpaused_push_producers (m_send_record env r u) = {}"
      and "\<And>u. unpaused_push_producers u = {} \<Longrightarrow> unpaused_push_producers (c_registerProducer env u) = {}"
      and e: "unpaused_push_producers s = {}"
  shows "unpaused_push_producers (snd (perform n env c s)) = {}"
proof -
  have loop: "unpaused_push_producers (snd (resume_loop n env u)) = {}"
    if "unpaused_push_producers u = {}" for u
    using assms(2,3) that by (rule resume_loop_unpaused_set)
  have res: "unpaused_push_producers (snd (resumeProducing n env u)) = {}"
    if "unpaused_push_producers u = {}" for u
    using that loop [of "u\<lparr>paused := False\<rparr>"] by (simp add: resumeProducing_def)
  show ?thesis
  proof (cases c)
    case (BuildRecord k args)
    with e show ?thesis by (simp add: build_record_def)
  next
    case (QueueRecord r)
    with e show ?thesis by (simp add: queue_record_def)
  next
    case (Register sc p streaming)
    have "unpaused_push_producers (snd (subchannel_registerProducer env sc p streaming s)) = {}"
      using e
      by (auto simp: subchannel_registerProducer_def Let_def emit_def intro!: assms(1) assms(2))
    with Register show ?thesis by simp
  next
    case (Unregister sc)
    with e show ?thesis by (simp add: subchannel_unregisterProducer_def Let_def split: option.splits)
  next
    case (Closed sc)
    with e show ?thesis
      by (simp add: subchannel_closed_def subchannel_unregisterProducer_def Let_def split: option.splits)
  next
    case UseConnection
    have "unpaused_push_producers (c_registerProducer env (emit RegisterProducer (s\<lparr>queued_unsent := queued_unsent s @ outbound_queue s\<rparr>))) = {}"
      using e by (intro assms(4)) (simp add: emit_def)
    from res [OF this] UseConnection e show ?thesis by (auto simp: use_connection_def Let_def)
  next
    case StopUsingConnection
    with e show ?thesis by (simp add: stop_using_connection_def pauseProducing_unpaused_set)
  next
    case (HandleAck m)
    with e show ?thesis by (simp add: handle_ack_def)
  next
    case Pause
    with e show ?thesis by (simp add: pauseProducing_unpaused_set)
  next
    case Resume
    with e res show ?thesis by simp
  next
    case Stop
    with e show ?thesis by (simp add: stopProducing_def pauseProducing_unpaused_set)
  qed
qed

lemma pause_loop_no_unpaused:
  "unpaused_push_producers s = {} \<Longrightarrow> pause_loop ps s = (Returns, s)"
  by (induction ps) auto

text \<open>
  Claim C10. Whatever calls are made on a new object, with whatever outcome, and
  collaborators that reach the object's state through its methods only (so that they
  add nothing to the unpaused set either), the set \<^verbatim>\<open>_unpaused_push_producers\<close>
  is empty; and there \<^verbatim>\<open>pauseProducing\<close> returns having set the paused flag
  and nothing else: it signals no producer.
\<close>

theorem unpaused_set_always_empty:
  assumes "\<And>p u. unpaused_push_producers u = {} \<Longrightarrow> unpaused_push_producers (p_pauseProducing env p u) = {}"
      and "\<And>p u. unpaused_push_producers u = {} \<Longrightarrow> unpaused_push_producers (p_resumeProducing env p u) = {}"
      and "\<And>r u. unpaused_push_producers u = {} \<Longrightarrow> unpaused_push_producers (m_send_record env r u) = {}"
      and "\<And>u. unpaused_push_producers u = {} \<Longrightarrow> unpaused_push_producers (c_registerProducer env u) = {}"
  shows "unpaused_push_producers (run env cs attrs_post_init) = {}
         \<and> pauseProducing (run env cs attrs_post_init)
             = (Returns, (run env cs attrs_post_init)\<lparr>paused := True\<rparr>)"
proof -
  have inv: "unpaused_push_producers (run env cs s) = {}" if "unpaused_push_producers s = {}" for s
    using that
  proof (induction cs arbitrary: s)
    case Nil
    then show ?case by simp
  next
    case (Cons c cs)
    obtain n k where c: "c = (n, k)" by (cases c)
    have "unpaused_push_producers (snd (perform n env k s)) = {}"
      using assms Cons.prems by (rule perform_unpaused_set)
    then show ?case using c Cons.IH by simp
  qed
  have e: "unpaused_push_producers (run env cs attrs_post_init) = {}"
    by (rule inv) (simp add: attrs_post_init_def)
  have "pauseProducing u = (Returns, u\<lparr>paused := True\<rparr>)" if "unpaused_push_producers u = {}" for u
  proof (cases "paused u")
    case True
    then have "u\<lparr>paused := True\<rparr> = u" by (cases u) simp
    with True show ?thesis by (simp add: pauseProducing_def)
  next
    case False
    with that show ?thesis by (simp add: pauseProducing_def Let_def pause_loop_no_unpaused)
  qed
  with e show ?thesis by simp
qed

theorem unpaused_set_always_empty_witness:
  "unpaused_push_producers (run repausing session attrs_post_init) = {}
   \<and> pauseProducing (run repausing session attrs_post_init)
       = (Returns, (run repausing session attrs_post_init)\<lparr>paused := True\<rparr>)"
  by (rule unpaused_set_always_empty)
     (simp_all add: repausing_def quiet_def pauseProducing_unpaused_set)

subsection \<open>Where the code leaves its own contract\<close>

lemma one_push_eq:
  "one_push = attrs_post_init\<lparr>subchannel_producers := [1 \<mapsto> 10], all_producers := [10],
                              paused_push_producers := {10}, trace := [PauseSignal 10]\<rparr>"
  by (simp add: one_push_def subchannel_registerProducer_def Let_def attrs_post_init_def
        check_invariants_def quiet_def emit_def)

lemma unpaused_idle_eq:
  "resumeProducing 1 quiet attrs_post_init = (Returns, attrs_post_init\<lparr>paused := False\<rparr>)"
  by (simp add: resumeProducing_def attrs_post_init_def get_next_unpaused_producer_def
        check_invariants_def)

lemma get_next_single_push:
  assumes "all_producers s = [p]" and "pull_producers s = {}"
    and "paused_push_producers s = {p}" and "unpaused_push_producers s = {}"
  shows "get_next_unpaused_producer s = Some (Inr (Some p), s)"
proof -
  have "s\<lparr>all_producers := [p]\<rparr> = s" using assms(1) by (cases s) auto
  then show ?thesis
    using assms rotate_loop_head [of p "{}" "{p}" "[]"]
    by (simp add: get_next_unpaused_producer_def check_invariants_def)
qed

text \<open>
  Claim C2 says that a paused push producer that is given a turn moves to the unpaused
  set. On a new object, after \<^verbatim>\<open>subchannel_registerProducer(1, 10, True)\<close>, the
  first iteration of \<^verbatim>\<open>resumeProducing\<close> signals producer 10 to resume and leaves
  it in the paused set; the unpaused set stays empty, and the second iteration signals
  producer 10 again.
\<close>

theorem resumed_push_stays_paused:
  "resumeProducing 1 quiet one_push =
     (OutOfFuel, one_push\<lparr>paused := False, trace := [PauseSignal 10, ResumeSignal 10]\<rparr>)
   \<and> 10 \<in> paused_push_producers (snd (resumeProducing 1 quiet one_push))
   \<and> 10 \<notin> unpaused_push_producers (snd (resumeProducing 1 quiet one_push))
   \<and> resumeProducing 2 quiet one_push =
     (OutOfFuel, one_push\<lparr>paused := False,
                   trace := [PauseSignal 10, ResumeSignal 10, ResumeSignal 10]\<rparr>)"
proof -
  have a: "resumeProducing 1 quiet one_push =
     (OutOfFuel, one_push\<lparr>paused := False, trace := [PauseSignal 10, ResumeSignal 10]\<rparr>)"
    by (simp add: resumeProducing_def get_next_single_push one_push_eq attrs_post_init_def
          quiet_def emit_def)
  have b: "resumeProducing (Suc (Suc 0)) quiet one_push =
     (OutOfFuel, one_push\<lparr>paused := False,
                   trace := [PauseSignal 10, ResumeSignal 10, ResumeSignal 10]\<rparr>)"
    by (simp add: resumeProducing_def get_next_single_push one_push_eq attrs_post_init_def
          quiet_def emit_def)
  have c: "10 \<in> paused_push_producers (snd (resumeProducing 1 quiet one_push))"
    and d: "10 \<notin> unpaused_push_producers (snd (resumeProducing 1 quiet one_push))"
    unfolding a by (simp_all add: one_push_eq attrs_post_init_def)
  from a b c d show ?thesis by (simp only: numeral_2_eq_2 simp_thms)
qed

text \<open>
  Claim C4 says that the three sets partition the deque after every register, unregister
  and closure. On a new object that \<^verbatim>\<open>resumeProducing\<close> has unpaused,
  \<^verbatim>\<open>subchannel_registerProducer(1, 10, True)\<close> appends producer 10 to the deque and
  raises AttributeError before it adds it to any set: the partition check fails on the
  state it leaves.
\<close>

theorem register_unpaused_breaks_partition:
  "fst (resumeProducing 1 quiet attrs_post_init) = Returns
   \<and> subchannel_registerProducer quiet 1 10 True unpaused_idle =
       (Raises AttributeError,
        unpaused_idle\<lparr>subchannel_producers := [1 \<mapsto> 10], all_producers := [10]\<rparr>)
   \<and> \<not> check_invariants (snd (subchannel_registerProducer quiet 1 10 True unpaused_idle))"
proof -
  have u: "unpaused_idle = attrs_post_init\<lparr>paused := False\<rparr>"
    by (simp only: unpaused_idle_def unpaused_idle_eq snd_conv)
  have r: "subchannel_registerProducer quiet 1 10 True unpaused_idle =
       (Raises AttributeError,
        unpaused_idle\<lparr>subchannel_producers := [1 \<mapsto> 10], all_producers := [10]\<rparr>)"
    by (simp add: u subchannel_registerProducer_def Let_def attrs_post_init_def)
  have "\<not> check_invariants
         (unpaused_idle\<lparr>subchannel_producers := [1 \<mapsto> 10], all_producers := [10]\<rparr>)"
    by (simp add: u check_invariants_def attrs_post_init_def)
  moreover have "fst (resumeProducing 1 quiet attrs_post_init) = Returns"
    by (simp only: unpaused_idle_eq fst_conv)
  ultimately show ?thesis using r by simp
qed

text \<open>
  Claim C8 says that a second registration on a subchannel fails with the duplicate
  registration error (the ValueError the method means to raise). With producer 10
  registered on subchannel 1, \<^verbatim>\<open>subchannel_registerProducer(1, 11, True)\<close> leaves
  the state as it is, and the exception it raises is AttributeError.
\<close>

theorem duplicate_registration_raises_attribute_error:
  "subchannel_registerProducer quiet 1 11 True one_push = (Raises AttributeError, one_push)
   \<and> fst (subchannel_registerProducer quiet 1 11 True one_push) \<noteq> Raises ValueError"
  by (simp add: one_push_eq subchannel_registerProducer_def attrs_post_init_def)

text \<open>
  Claim C9 says that unregistering a mapped subchannel completes. With producer 10
  registered on subchannel 1, \<^verbatim>\<open>subchannel_unregisterProducer(1)\<close> removes the
  mapping, the deque entry and the set entry and then raises AttributeError, and so does
  \<^verbatim>\<open>subchannel_closed\<close> on that subchannel; on the unmapped subchannel 2 the
  first raises KeyError and the second returns without a change.
\<close>

theorem unregister_mapped_raises_attribute_error:
  "subchannel_unregisterProducer 1 one_push =
     (Raises AttributeError, attrs_post_init\<lparr>trace := [PauseSignal 10]\<rparr>)
   \<and> subchannel_closed 1 one_push =
     (Raises AttributeError, attrs_post_init\<lparr>trace := [PauseSignal 10]\<rparr>)
   \<and> subchannel_unregisterProducer 2 one_push = (Raises KeyError, one_push)
   \<and> subchannel_closed 2 one_push = (Returns, one_push)"
  by (simp add: one_push_eq subchannel_unregisterProducer_def subchannel_closed_def Let_def
        attrs_post_init_def check_invariants_def)

end
